theory Spec2Isabelle
  imports Complex_Main
begin

section \<open>JavaScript values reaching \<open>stringIncrement\<close>\<close>

text \<open>
  The TypeScript signature is \<open>stringIncrement(input: string): string\<close>, but the body
  tests \<open>!input\<close> and \<open>typeof input\<close>, and the test-suite calls it with
  \<open>null\<close>, \<open>undefined\<close>, a number, a boolean and an object. The argument is
  therefore an arbitrary JavaScript value. A string is a list of code units; the two
  character classes of the pattern are ASCII ranges, so a code unit outside them is
  treated like any other byte that is neither a letter nor a digit.
\<close>

datatype js_number = NaN | PosInfinity | NegInfinity | Finite rat

datatype js_value =
    JUndefined
  | JNull
  | JBoolean bool
  | JNumber js_number
  | JBigInt int
  | JString string
  | JSymbol
  | JObject
  | JFunction

text \<open>The \<open>typeof\<close> operator.\<close>

fun typeof :: "js_value \<Rightarrow> string" where
  "typeof JUndefined = ''undefined''"
| "typeof JNull = ''object''"
| "typeof (JBoolean b) = ''boolean''"
| "typeof (JNumber n) = ''number''"
| "typeof (JBigInt i) = ''bigint''"
| "typeof (JString s) = ''string''"
| "typeof JSymbol = ''symbol''"
| "typeof JObject = ''object''"
| "typeof JFunction = ''function''"

text \<open>
  The conversion behind \<open>!input\<close>: \<open>undefined\<close>, \<open>null\<close>, \<open>false\<close>, zero,
  \<open>NaN\<close>, \<open>0n\<close> and the empty string are falsy, everything else is truthy.
\<close>

fun ToBoolean :: "js_value \<Rightarrow> bool" where
  "ToBoolean JUndefined = False"
| "ToBoolean JNull = False"
| "ToBoolean (JBoolean b) = b"
| "ToBoolean (JNumber n) = (n \<noteq> NaN \<and> n \<noteq> Finite 0)"
| "ToBoolean (JBigInt i) = (i \<noteq> 0)"
| "ToBoolean (JString s) = (s \<noteq> [])"
| "ToBoolean JSymbol = True"
| "ToBoolean JObject = True"
| "ToBoolean JFunction = True"

section \<open>The pattern \<open>/^([A-Za-z]{1,4})(\d{1,4})$/\<close>\<close>

text \<open>
  The two character classes, by code unit: \<open>[A-Za-z]\<close> is 65..90 and 97..122,
  \<open>\d\<close> (no \<open>u\<close> flag) is 48..57.
\<close>

definition class_alpha :: "char \<Rightarrow> bool" where
  "class_alpha c =
     ((65 \<le> (of_char c :: nat) \<and> (of_char c :: nat) \<le> 90) \<or>
      (97 \<le> (of_char c :: nat) \<and> (of_char c :: nat) \<le> 122))"

definition class_digit :: "char \<Rightarrow> bool" where
  "class_digit c = (48 \<le> (of_char c :: nat) \<and> (of_char c :: nat) \<le> 57)"

text \<open>
  A capturing group \<open>(C{lo,hi})\<close> is a character class with its two bounds. The
  quantifier is greedy: the longest run is tried first and the matcher backs off one
  code unit at a time down to \<open>lo\<close>.
\<close>

type_synonym regex_group = "(char \<Rightarrow> bool) \<times> nat \<times> nat"

fun first_some :: "('a \<Rightarrow> 'b option) \<Rightarrow> 'a list \<Rightarrow> 'b option" where
  "first_some f [] = None"
| "first_some f (x # xs) = (case f x of Some y \<Rightarrow> Some y | None \<Rightarrow> first_some f xs)"

text \<open>
  \<open>match_groups gs s\<close> matches the groups \<open>gs\<close> one after the other from the start of
  \<open>s\<close> and then the anchor \<open>$\<close> (no \<open>m\<close> flag: the end of the input only). The result
  is the list of captures, or \<open>None\<close> when every alternative fails.
\<close>

primrec match_groups :: "regex_group list \<Rightarrow> string \<Rightarrow> string list option" where
  "match_groups [] s = (if s = [] then Some [] else None)"
| "match_groups (g # gs) s =
     first_some
       (\<lambda>k. if k \<le> length s \<and> list_all (fst g) (take k s)
            then map_option ((#) (take k s)) (match_groups gs (drop k s))
            else None)
       (rev [fst (snd g) ..< Suc (snd (snd g))])"

definition validFormatRegex :: "regex_group list" where
  "validFormatRegex = [(class_alpha, 1, 4), (class_digit, 1, 4)]"

text \<open>
  \<open>input.match(validFormatRegex)\<close> for a pattern anchored by \<open>^\<close> and without the
  \<open>g\<close> flag: \<open>null\<close> (\<open>None\<close>), or the match array, whose entry 0 is the matched text
  (the whole input, since both ends are anchored) followed by one entry per group.
\<close>

definition string_match :: "string \<Rightarrow> regex_group list \<Rightarrow> string list option" where
  "string_match s re = map_option ((#) s) (match_groups re s)"

section \<open>Numbers and their decimal text\<close>

definition digit_value :: "char \<Rightarrow> nat" where
  "digit_value c = of_char c - 48"

definition decimal_value :: "string \<Rightarrow> nat" where
  "decimal_value ds = foldl (\<lambda>a c. 10 * a + digit_value c) 0 ds"

text \<open>
  The white space that \<open>parseInt\<close> skips, among the one-byte code units: tab, line
  feed, vertical tab, form feed, carriage return, space and the no-break space.
\<close>

definition is_white_space :: "char \<Rightarrow> bool" where
  "is_white_space c = ((of_char c :: nat) \<in> {9, 10, 11, 12, 13, 32, 160})"

text \<open>
  \<open>parseInt(s, 10)\<close>: skip white space, read an optional sign, then the longest run of
  decimal digits; \<open>NaN\<close> (\<open>None\<close>) when that run is empty. The value is an integer,
  and it is the exact one below \<open>2^53\<close>, which covers every capture of \<open>\d{1,4}\<close>.
\<close>

definition parseInt10 :: "string \<Rightarrow> int option" where
  "parseInt10 s =
     (let t = dropWhile is_white_space s;
          sgn = (case t of [] \<Rightarrow> 1 | c # r \<Rightarrow> if c = CHR ''-'' then - 1 else (1::int));
          u = (case t of [] \<Rightarrow> [] | c # r \<Rightarrow> if c = CHR ''-'' \<or> c = CHR ''+'' then r else t);
          ds = takeWhile class_digit u
      in if ds = [] then None else Some (sgn * int (decimal_value ds)))"

text \<open>\<open>Number.prototype.toString()\<close> on an integer-valued number or \<open>NaN\<close>.\<close>

fun nat_toString :: "nat \<Rightarrow> string" where
  "nat_toString n =
     (if n < 10 then [char_of (48 + n)]
      else nat_toString (n div 10) @ [char_of (48 + n mod 10)])"

definition number_toString :: "int option \<Rightarrow> string" where
  "number_toString x =
     (case x of
        None \<Rightarrow> ''NaN''
      | Some i \<Rightarrow> if i < 0 then CHR ''-'' # nat_toString (nat (- i)) else nat_toString (nat i))"

text \<open>\<open>s.padStart(n, c)\<close> for a one-character filler.\<close>

definition padStart :: "string \<Rightarrow> nat \<Rightarrow> char \<Rightarrow> string" where
  "padStart s n c = replicate (n - length s) c @ s"

section \<open>\<open>stringIncrement\<close>\<close>

text \<open>
  The body of the function, with the names of its local constants. The text of the
  incremented number and the choice among the three branches are kept as functions of
  \<open>digitPart\<close>, so that statements can refer to the branch condition.
\<close>

definition incrementedStr :: "string \<Rightarrow> string" where
  "incrementedStr digitPart =
     (let currentNumber = parseInt10 digitPart;
          incrementedNumber = map_option (\<lambda>n. n + 1) currentNumber
      in number_toString incrementedNumber)"

definition newDigitPart :: "string \<Rightarrow> string" where
  "newDigitPart digitPart =
     (if length (incrementedStr digitPart) > 4
      then replicate (length digitPart) (CHR ''0'')
      else if length (incrementedStr digitPart) > length digitPart
      then incrementedStr digitPart
      else padStart (incrementedStr digitPart) (length digitPart) (CHR ''0''))"

text \<open>
  After the first guard the input is a non-empty string, so the last case below is
  never taken. Past the second guard the match array has its entries 1 and 2. No
  operation of the body can throw on the values it receives (\<open>repeat\<close> gets a length,
  \<open>length\<close> is read from strings only), hence the function is total and returns a
  string on every input.
\<close>

definition stringIncrement :: "js_value \<Rightarrow> string" where
  "stringIncrement input =
     (if \<not> ToBoolean input \<or> typeof input \<noteq> ''string'' then ''Error''
      else case input of
        JString s \<Rightarrow>
          (case string_match s validFormatRegex of
             None \<Rightarrow> ''Error''
           | Some m \<Rightarrow>
               if length m < 3 then ''Error''
               else let letterPart = m ! 1; digitPart = m ! 2
                    in letterPart @ newDigitPart digitPart)
      | _ \<Rightarrow> ''Error'')"

section \<open>The language of the pattern\<close>

text \<open>
  The shape that \<open>validFormatRegex\<close> accepts, written without the matcher: a run of
  one to four letters and a run of one to four digits. \<open>string_match_iff\<close> below
  shows that the matcher accepts exactly the concatenations of two such runs, and that
  the runs are its two captures.
\<close>

definition token_parts :: "string \<Rightarrow> string \<Rightarrow> bool" where
  "token_parts ls ds \<longleftrightarrow>
     1 \<le> length ls \<and> length ls \<le> 4 \<and> list_all class_alpha ls \<and>
     1 \<le> length ds \<and> length ds \<le> 4 \<and> list_all class_digit ds"

declare nat_toString.simps [simp del]

section \<open>The matcher accepts exactly the tokens\<close>

lemma first_some_SomeD:
  "first_some f xs = Some y \<Longrightarrow> \<exists>x\<in>set xs. f x = Some y"
  by (induction xs) (auto split: option.splits)

lemma first_some_unique:
  "x \<in> set xs \<Longrightarrow> f x = Some y \<Longrightarrow> (\<forall>x'\<in>set xs. x' \<noteq> x \<longrightarrow> f x' = None)
   \<Longrightarrow> first_some f xs = Some y"
proof (induction xs)
  case Nil
  then show ?case by simp
next
  case (Cons a xs)
  show ?case
  proof (cases "a = x")
    case True
    with Cons.prems show ?thesis by simp
  next
    case False
    with Cons.prems have "f a = None" and "x \<in> set xs" by auto
    with Cons show ?thesis by simp
  qed
qed

lemma alpha_not_digit: "class_alpha c \<Longrightarrow> \<not> class_digit c"
  by (auto simp: class_alpha_def class_digit_def)

lemma match_digit_group:
  assumes "ds \<noteq> []" "length ds \<le> 4" "list_all class_digit ds"
  shows "match_groups [(class_digit, Suc 0, 4)] ds = Some [ds]"
proof -
  let ?f = "\<lambda>k. if k \<le> length ds \<and> list_all class_digit (take k ds)
                 then map_option ((#) (take k ds)) (match_groups [] (drop k ds))
                 else None"
  have in_set: "length ds \<in> set (rev [1 ..< Suc 4])"
    using assms by (cases ds) auto
  have here: "?f (length ds) = Some [ds]"
    using assms by simp
  have others: "\<forall>k\<in>set (rev [1 ..< Suc 4]). k \<noteq> length ds \<longrightarrow> ?f k = None"
    by auto
  have "first_some ?f (rev [1 ..< Suc 4]) = Some [ds]"
    by (rule first_some_unique [OF in_set here others])
  then show ?thesis by simp
qed

lemma match_digit_groupD:
  assumes "match_groups [(class_digit, Suc 0, 4)] t = Some m"
  shows "t \<noteq> [] \<and> length t \<le> 4 \<and> list_all class_digit t \<and> m = [t]"
proof -
  let ?f = "\<lambda>k. if k \<le> length t \<and> list_all class_digit (take k t)
                 then map_option ((#) (take k t)) (match_groups [] (drop k t))
                 else None"
  from assms have "first_some ?f (rev [1 ..< Suc 4]) = Some m" by simp
  then obtain k where k: "k \<in> set (rev [1 ..< Suc 4])" and fk: "?f k = Some m"
    by (blast dest: first_some_SomeD)
  from fk have c: "k \<le> length t" "list_all class_digit (take k t)" "drop k t = []"
    and m: "m = [take k t]"
    by (auto split: if_splits)
  from c have "k = length t" by simp
  with k c m show ?thesis by auto
qed

lemma match_valid_token:
  assumes "token_parts ls ds"
  shows "match_groups validFormatRegex (ls @ ds) = Some [ls, ds]"
proof -
  from assms have ls: "ls \<noteq> []" "length ls \<le> 4" "list_all class_alpha ls"
    and ds: "ds \<noteq> []" "length ds \<le> 4" "list_all class_digit ds"
    by (auto simp: token_parts_def)
  let ?s = "ls @ ds"
  let ?f = "\<lambda>k. if k \<le> length ?s \<and> list_all class_alpha (take k ?s)
                 then map_option ((#) (take k ?s))
                        (match_groups [(class_digit, Suc 0, 4)] (drop k ?s))
                 else None"
  have in_set: "length ls \<in> set (rev [1 ..< Suc 4])"
    using ls by (cases ls) auto
  have here: "?f (length ls) = Some [ls, ds]"
    using ls ds by (simp add: match_digit_group del: match_groups.simps)
  have others: "\<forall>k\<in>set (rev [1 ..< Suc 4]). k \<noteq> length ls \<longrightarrow> ?f k = None"
  proof (intro ballI impI)
    fix k assume k: "k \<in> set (rev [1 ..< Suc 4])" and ne: "k \<noteq> length ls"
    show "?f k = None"
    proof (cases "k < length ls")
      case True
      then obtain c r where dr: "drop k ls = c # r"
        by (cases "drop k ls") auto
      then have "c \<in> set ls" by (metis in_set_dropD list.set_intros(1))
      with ls have "class_alpha c" by (simp add: list_all_iff)
      then have nd: "\<not> class_digit c" by (rule alpha_not_digit)
      have "match_groups [(class_digit, Suc 0, 4)] (drop k ?s) = None"
      proof (rule ccontr)
        assume "match_groups [(class_digit, Suc 0, 4)] (drop k ?s) \<noteq> None"
        then obtain m where "match_groups [(class_digit, Suc 0, 4)] (drop k ?s) = Some m"
          by blast
        then have "list_all class_digit (drop k ?s)"
          by (blast dest: match_digit_groupD)
        with True dr nd show False by simp
      qed
      then show ?thesis by (simp only: option.map(1) if_cancel)
    next
      case False
      with ne have gt: "length ls < k" by simp
      from ds obtain d r where dsd: "ds = d # r" by (cases ds) auto
      with ds have "class_digit d" by simp
      then have "\<not> class_alpha d" using alpha_not_digit by blast
      with gt dsd have "\<not> list_all class_alpha (take k ?s)"
        by (cases "k - length ls") auto
      then have "\<not> (k \<le> length ?s \<and> list_all class_alpha (take k ?s))" by blast
      then show ?thesis by (rule if_not_P)
    qed
  qed
  have "first_some ?f (rev [1 ..< Suc 4]) = Some [ls, ds]"
    by (rule first_some_unique [OF in_set here others])
  then show ?thesis by (simp add: validFormatRegex_def)
qed

lemma match_valid_tokenD:
  assumes "match_groups validFormatRegex s = Some m"
  shows "\<exists>ls ds. s = ls @ ds \<and> token_parts ls ds \<and> m = [ls, ds]"
proof -
  let ?f = "\<lambda>k. if k \<le> length s \<and> list_all class_alpha (take k s)
                 then map_option ((#) (take k s))
                        (match_groups [(class_digit, Suc 0, 4)] (drop k s))
                 else None"
  from assms have "first_some ?f (rev [1 ..< Suc 4]) = Some m"
    by (simp add: validFormatRegex_def)
  then obtain k where k: "k \<in> set (rev [1 ..< Suc 4])" and fk: "?f k = Some m"
    by (blast dest: first_some_SomeD)
  from fk obtain m' where c: "k \<le> length s" "list_all class_alpha (take k s)"
    and inner: "match_groups [(class_digit, Suc 0, 4)] (drop k s) = Some m'"
    and m: "m = take k s # m'"
    by (auto split: if_splits simp del: match_groups.simps)
  from match_digit_groupD [OF inner]
  have d: "drop k s \<noteq> []" "length (drop k s) \<le> 4" "list_all class_digit (drop k s)"
    "m' = [drop k s]" by auto
  have "token_parts (take k s) (drop k s)"
    unfolding token_parts_def using k c d by (cases "drop k s") auto
  moreover have "s = take k s @ drop k s" by simp
  ultimately show ?thesis using m d by blast
qed

lemma string_match_iff:
  "string_match s validFormatRegex = Some m \<longleftrightarrow>
     (\<exists>ls ds. s = ls @ ds \<and> token_parts ls ds \<and> m = [s, ls, ds])"
  by (auto simp: string_match_def match_valid_token dest: match_valid_tokenD)

section \<open>Decimal text and its value\<close>

lemma class_digit_char_of: "(d::nat) < 10 \<Longrightarrow> class_digit (char_of (48 + d))"
  by (simp add: class_digit_def)

lemma digit_value_char_of: "(d::nat) < 10 \<Longrightarrow> digit_value (char_of (48 + d)) = d"
  by (simp add: digit_value_def)

lemma digit_value_less: "class_digit c \<Longrightarrow> digit_value c < 10"
  by (auto simp: class_digit_def digit_value_def)

lemma digit_char_eq: "class_digit c \<Longrightarrow> c = char_of (48 + digit_value c)"
  by (simp add: class_digit_def digit_value_def)

lemma digit_not_space: "class_digit c \<Longrightarrow> \<not> is_white_space c"
  by (auto simp: class_digit_def is_white_space_def)

lemma digit_not_sign: "class_digit c \<Longrightarrow> c \<noteq> CHR ''-'' \<and> c \<noteq> CHR ''+''"
  by (auto simp: class_digit_def)

lemma decimal_value_snoc:
  "decimal_value (ds @ [c]) = 10 * decimal_value ds + digit_value c"
  by (simp add: decimal_value_def)

lemma decimal_value_less:
  "list_all class_digit ds \<Longrightarrow> decimal_value ds < 10 ^ length ds"
proof (induction ds rule: rev_induct)
  case Nil
  then show ?case by (simp add: decimal_value_def)
next
  case (snoc c ds)
  then have "decimal_value ds < 10 ^ length ds" and "digit_value c < 10"
    by (simp_all add: digit_value_less)
  then have "10 * decimal_value ds + digit_value c < 10 * 10 ^ length ds"
    by linarith
  then show ?case by (simp add: decimal_value_snoc)
qed

lemma nat_toString_digits: "list_all class_digit (nat_toString n)"
proof (induction n rule: nat_toString.induct)
  case (1 n)
  show ?case
  proof (cases "n < 10")
    case True
    then show ?thesis
      by (subst nat_toString.simps) (simp add: class_digit_char_of)
  next
    case False
    with 1 show ?thesis
      by (subst nat_toString.simps) (simp add: class_digit_char_of)
  qed
qed

lemma nat_toString_nonempty: "nat_toString n \<noteq> []"
  by (subst nat_toString.simps) simp

lemma decimal_value_nat_toString: "decimal_value (nat_toString n) = n"
proof (induction n rule: nat_toString.induct)
  case (1 n)
  show ?case
  proof (cases "n < 10")
    case True
    then show ?thesis
      by (subst nat_toString.simps) (simp add: decimal_value_def digit_value_char_of)
  next
    case False
    with 1 have "decimal_value (nat_toString (n div 10)) = n div 10" by simp
    with False show ?thesis
      by (subst nat_toString.simps)
         (simp add: decimal_value_snoc digit_value_char_of)
  qed
qed

lemma length_nat_toString_le:
  "0 < k \<Longrightarrow> n < 10 ^ k \<Longrightarrow> length (nat_toString n) \<le> k"
proof (induction n arbitrary: k rule: nat_toString.induct)
  case (1 n)
  show ?case
  proof (cases "n < 10")
    case True
    with 1 show ?thesis by (subst nat_toString.simps) simp
  next
    case False
    from "1.prems" obtain j where k: "k = Suc j" by (cases k) auto
    with False "1.prems" have "0 < j" by (cases j) auto
    moreover from k "1.prems" have "n div 10 < 10 ^ j" by auto
    ultimately have "length (nat_toString (n div 10)) \<le> j"
      using "1.IH" False by simp
    with False k show ?thesis by (subst nat_toString.simps) simp
  qed
qed

lemma length_nat_toString_gt:
  "10 ^ k \<le> n \<Longrightarrow> k < length (nat_toString n)"
proof (induction n arbitrary: k rule: nat_toString.induct)
  case (1 n)
  show ?case
  proof (cases "n < 10")
    case True
    have "k = 0"
    proof (cases k)
      case 0
      then show ?thesis .
    next
      case (Suc j)
      have "(1::nat) \<le> 10 ^ j" by simp
      with Suc "1.prems" True show ?thesis by simp
    qed
    then show ?thesis using nat_toString_nonempty [of n] by simp
  next
    case False
    show ?thesis
    proof (cases k)
      case 0
      then show ?thesis using nat_toString_nonempty [of n] by simp
    next
      case (Suc j)
      with "1.prems" have "10 ^ j \<le> n div 10" by auto
      then have "j < length (nat_toString (n div 10))"
        using "1.IH" False by simp
      with False Suc show ?thesis by (subst nat_toString.simps) simp
    qed
  qed
qed

lemma parseInt10_digits:
  assumes "ds \<noteq> []" "list_all class_digit ds"
  shows "parseInt10 ds = Some (int (decimal_value ds))"
proof -
  from assms obtain d r where ds: "ds = d # r" by (cases ds) auto
  with assms have d: "class_digit d" by simp
  have t: "dropWhile is_white_space ds = ds"
    using ds d by (simp add: digit_not_space)
  have tw: "takeWhile class_digit ds = ds"
    using assms by (simp add: list_all_iff)
  have u: "(case ds of [] \<Rightarrow> [] | c # r \<Rightarrow> if c = CHR ''-'' \<or> c = CHR ''+'' then r else ds) = ds"
    using ds digit_not_sign [OF d] by simp
  have sg: "(case ds of [] \<Rightarrow> 1 | c # r \<Rightarrow> if c = CHR ''-'' then - 1 else (1::int)) = 1"
    using ds digit_not_sign [OF d] by simp
  show ?thesis
    unfolding parseInt10_def Let_def t u sg tw using assms(1) by simp
qed

lemma incrementedStr_digits:
  assumes "ds \<noteq> []" "list_all class_digit ds"
  shows "incrementedStr ds = nat_toString (Suc (decimal_value ds))"
  using assms
  by (simp add: incrementedStr_def parseInt10_digits number_toString_def nat_add_distrib)

lemma stringIncrement_token:
  assumes "token_parts ls ds"
  shows "stringIncrement (JString (ls @ ds)) = ls @ newDigitPart ds"
proof -
  from assms have ne: "ls @ ds \<noteq> []" by (auto simp: token_parts_def)
  have "string_match (ls @ ds) validFormatRegex = Some [ls @ ds, ls, ds]"
    using assms by (simp add: string_match_def match_valid_token)
  with ne show ?thesis by (simp add: stringIncrement_def)
qed

lemma stringIncrement_no_match:
  "string_match s validFormatRegex = None \<Longrightarrow> stringIncrement (JString s) = ''Error''"
  by (simp add: stringIncrement_def)

section \<open>The three branches of the digit policy\<close>

lemma token_partsD:
  "token_parts ls ds \<Longrightarrow> ds \<noteq> [] \<and> length ds \<le> 4 \<and> list_all class_digit ds"
  "token_parts ls ds \<Longrightarrow> ls \<noteq> [] \<and> length ls \<le> 4 \<and> list_all class_alpha ls"
  by (auto simp: token_parts_def)

lemma newDigitPart_digits:
  assumes "ds \<noteq> []" "list_all class_digit ds"
  shows "newDigitPart ds =
     (if 4 < length (nat_toString (Suc (decimal_value ds)))
      then replicate (length ds) (CHR ''0'')
      else if length ds < length (nat_toString (Suc (decimal_value ds)))
      then nat_toString (Suc (decimal_value ds))
      else replicate (length ds - length (nat_toString (Suc (decimal_value ds)))) (CHR ''0'')
           @ nat_toString (Suc (decimal_value ds)))"
  using assms by (simp add: newDigitPart_def incrementedStr_digits padStart_def)

lemma length_incremented_le_Suc:
  assumes "list_all class_digit ds"
  shows "length (nat_toString (Suc (decimal_value ds))) \<le> Suc (length ds)"
proof -
  have "decimal_value ds < 10 ^ length ds"
    using assms by (rule decimal_value_less)
  moreover have "(1::nat) \<le> 10 ^ length ds" by simp
  ultimately have "Suc (decimal_value ds) < 10 ^ Suc (length ds)" by simp
  then show ?thesis by (intro length_nat_toString_le) simp_all
qed

lemma class_digit_zero: "class_digit (CHR ''0'')"
  by (simp add: class_digit_def)

lemma newDigitPart_shape:
  assumes "ds \<noteq> []" "length ds \<le> 4" "list_all class_digit ds"
  shows "list_all class_digit (newDigitPart ds) \<and>
         (length (newDigitPart ds) = length ds \<or> length (newDigitPart ds) = Suc (length ds)) \<and>
         length (newDigitPart ds) \<le> 4"
proof -
  let ?r = "nat_toString (Suc (decimal_value ds))"
  have r: "list_all class_digit ?r" by (rule nat_toString_digits)
  have le: "length ?r \<le> Suc (length ds)"
    using assms(3) by (rule length_incremented_le_Suc)
  consider (overflow) "4 < length ?r"
    | (growth) "\<not> 4 < length ?r" "length ds < length ?r"
    | (pad) "\<not> 4 < length ?r" "\<not> length ds < length ?r"
    by blast
  then show ?thesis
  proof cases
    case overflow
    then have "newDigitPart ds = replicate (length ds) (CHR ''0'')"
      using assms by (simp add: newDigitPart_digits)
    then show ?thesis using assms by (simp add: list_all_iff class_digit_zero)
  next
    case growth
    then have "newDigitPart ds = ?r"
      using assms by (simp add: newDigitPart_digits)
    then show ?thesis using growth le r by simp
  next
    case pad
    then have "newDigitPart ds = replicate (length ds - length ?r) (CHR ''0'') @ ?r"
      using assms by (simp add: newDigitPart_digits)
    then show ?thesis using pad assms r by (auto simp: list_all_iff class_digit_zero)
  qed
qed

lemma newDigitPart_nonempty:
  assumes "ds \<noteq> []" "length ds \<le> 4" "list_all class_digit ds"
  shows "newDigitPart ds \<noteq> []"
  using newDigitPart_shape [OF assms] assms(1) by auto

lemma takeWhile_alpha_token:
  assumes "list_all class_alpha ls" "nd \<noteq> []" "list_all class_digit nd"
  shows "takeWhile class_alpha (ls @ nd) = ls"
proof -
  from assms obtain d r where nd: "nd = d # r" by (cases nd) auto
  with assms have "class_digit d" by simp
  then have "\<not> class_alpha d" using alpha_not_digit by blast
  with assms(1) nd show ?thesis by (simp add: list_all_iff)
qed

lemma stringIncrement_invalid:
  assumes "\<not> (\<exists>ls ds. input = JString (ls @ ds) \<and> token_parts ls ds)"
  shows "stringIncrement input = ''Error''"
proof (cases input)
  case (JString s)
  have "string_match s validFormatRegex = None"
  proof (rule ccontr)
    assume "string_match s validFormatRegex \<noteq> None"
    then obtain m where "string_match s validFormatRegex = Some m" by blast
    then obtain ls ds where "s = ls @ ds" "token_parts ls ds"
      by (auto simp: string_match_iff)
    with JString assms show False by blast
  qed
  with JString show ?thesis by (simp add: stringIncrement_no_match)
qed (simp_all add: stringIncrement_def)

lemma stringIncrement_valid_last:
  assumes "token_parts ls ds"
  shows "class_digit (last (stringIncrement (JString (ls @ ds))))"
proof -
  from assms have d: "ds \<noteq> []" "length ds \<le> 4" "list_all class_digit ds"
    by (simp_all add: token_partsD)
  have ne: "newDigitPart ds \<noteq> []" by (rule newDigitPart_nonempty [OF d])
  have "list_all class_digit (newDigitPart ds)"
    using newDigitPart_shape [OF d] by blast
  with ne have "class_digit (last (newDigitPart ds))"
    by (simp add: list_all_iff)
  with ne show ?thesis by (simp add: stringIncrement_token [OF assms])
qed

lemma last_Error_not_digit: "\<not> class_digit (last ''Error'')"
  by (simp add: class_digit_def)

lemma stringIncrement_valid_not_Error:
  assumes "token_parts ls ds"
  shows "stringIncrement (JString (ls @ ds)) \<noteq> ''Error''"
  using stringIncrement_valid_last [OF assms] last_Error_not_digit by metis

lemma digit_nine: "class_digit c \<Longrightarrow> digit_value c = 9 \<Longrightarrow> c = CHR ''9''"
proof -
  assume "class_digit c" "digit_value c = 9"
  then have "(of_char c :: nat) = 57"
    by (simp add: class_digit_def digit_value_def)
  also have "\<dots> = of_char (CHR ''9'')" by simp
  finally show ?thesis by (rule of_char_eqI)
qed

lemma decimal_value_9999:
  assumes "length ds \<le> 4" "list_all class_digit ds"
  shows "decimal_value ds = 9999 \<longleftrightarrow> ds = ''9999''"
proof
  assume "ds = ''9999''"
  then show "decimal_value ds = 9999" by (simp add: decimal_value_def digit_value_def)
next
  assume v: "decimal_value ds = 9999"
  have "length ds = 4"
  proof (rule ccontr)
    assume "length ds \<noteq> 4"
    with assms(1) have "length ds \<le> 3" by simp
    then have "(10::nat) ^ length ds \<le> 10 ^ 3" by (intro power_increasing) simp_all
    with decimal_value_less [OF assms(2)] v show False by simp
  qed
  then obtain a b c d where ds: "ds = [a, b, c, d]"
    by (auto simp: eval_nat_numeral length_Suc_conv)
  with assms(2) have dg: "class_digit a" "class_digit b" "class_digit c" "class_digit d"
    by simp_all
  then have lt: "digit_value a < 10" "digit_value b < 10" "digit_value c < 10" "digit_value d < 10"
    by (simp_all add: digit_value_less)
  from v ds have "1000 * digit_value a + 100 * digit_value b + 10 * digit_value c + digit_value d = 9999"
    by (simp add: decimal_value_def)
  with lt have "digit_value a = 9 \<and> digit_value b = 9 \<and> digit_value c = 9 \<and> digit_value d = 9"
    by linarith
  with dg ds show "ds = ''9999''" by (simp add: digit_nine)
qed

lemma overflow_iff:
  assumes "ds \<noteq> []" "length ds \<le> 4" "list_all class_digit ds"
  shows "4 < length (incrementedStr ds) \<longleftrightarrow> ds = ''9999''"
proof -
  have lt: "decimal_value ds < 10 ^ 4"
  proof -
    have "(10::nat) ^ length ds \<le> 10 ^ 4"
      using assms(2) by (intro power_increasing) simp_all
    with decimal_value_less [OF assms(3)] show ?thesis by linarith
  qed
  have "4 < length (nat_toString (Suc (decimal_value ds))) \<longleftrightarrow> 10 ^ 4 \<le> Suc (decimal_value ds)"
  proof
    assume "4 < length (nat_toString (Suc (decimal_value ds)))"
    then show "10 ^ 4 \<le> Suc (decimal_value ds)"
      using length_nat_toString_le [of 4 "Suc (decimal_value ds)"] by fastforce
  next
    assume "10 ^ 4 \<le> Suc (decimal_value ds)"
    then show "4 < length (nat_toString (Suc (decimal_value ds)))"
      by (rule length_nat_toString_gt)
  qed
  also have "\<dots> \<longleftrightarrow> decimal_value ds = 9999" using lt by auto
  also have "\<dots> \<longleftrightarrow> ds = ''9999''" by (rule decimal_value_9999 [OF assms(2,3)])
  finally show ?thesis by (simp add: incrementedStr_digits [OF assms(1,3)])
qed

text \<open>Rules that evaluate the definitions on a concrete token.\<close>

lemmas token_eval =
  token_parts_def class_alpha_def class_digit_def decimal_value_def digit_value_def
  nat_toString.simps char_of_def bit_Suc_0_iff

lemma stringIncrement_eval:
  assumes "token_parts ls ds"
  shows "stringIncrement (JString (ls @ ds)) = ls @
     (if 4 < length (nat_toString (Suc (decimal_value ds)))
      then replicate (length ds) (CHR ''0'')
      else if length ds < length (nat_toString (Suc (decimal_value ds)))
      then nat_toString (Suc (decimal_value ds))
      else replicate (length ds - length (nat_toString (Suc (decimal_value ds)))) (CHR ''0'')
           @ nat_toString (Suc (decimal_value ds)))"
  using assms by (simp add: stringIncrement_token newDigitPart_digits token_partsD)

section \<open>Claims about the success path\<close>

text \<open>
  Claim C1. For every valid input (one to four letters \<open>ls\<close> followed by one to four
  digits \<open>ds\<close>): when the decimal text of the value of \<open>ds\<close> plus one is no longer
  than \<open>ds\<close>, the result is \<open>ls\<close> followed by that text, left-padded with zeros to
  exactly the length of \<open>ds\<close>. In particular \<open>A009\<close> gives \<open>A010\<close>, \<open>F001\<close> gives
  \<open>F002\<close>, and \<open>A010\<close> is read as decimal ten and gives \<open>A011\<close>.
\<close>

theorem padding_preserved:
  "(token_parts ls ds \<and> length (nat_toString (decimal_value ds + 1)) \<le> length ds \<longrightarrow>
      stringIncrement (JString (ls @ ds)) =
        ls @ replicate (length ds - length (nat_toString (decimal_value ds + 1))) (CHR ''0'')
           @ nat_toString (decimal_value ds + 1) \<and>
      length (replicate (length ds - length (nat_toString (decimal_value ds + 1))) (CHR ''0'')
              @ nat_toString (decimal_value ds + 1)) = length ds) \<and>
   stringIncrement (JString ''A009'') = ''A010'' \<and>
   stringIncrement (JString ''F001'') = ''F002'' \<and>
   parseInt10 ''010'' = Some 10 \<and>
   stringIncrement (JString ''A010'') = ''A011''"
proof (intro conjI impI)
  assume h: "token_parts ls ds \<and> length (nat_toString (decimal_value ds + 1)) \<le> length ds"
  then have tp: "token_parts ls ds" by (rule conjunct1)
  from token_partsD(1) [OF tp]
  have d: "ds \<noteq> []" "length ds \<le> 4" "list_all class_digit ds" by simp_all
  from h d show "stringIncrement (JString (ls @ ds)) =
        ls @ replicate (length ds - length (nat_toString (decimal_value ds + 1))) (CHR ''0'')
           @ nat_toString (decimal_value ds + 1)"
    by (simp add: stringIncrement_token [OF tp] newDigitPart_digits)
  from h show "length (replicate (length ds - length (nat_toString (decimal_value ds + 1))) (CHR ''0'')
              @ nat_toString (decimal_value ds + 1)) = length ds"
    by simp
next
  show "stringIncrement (JString ''A009'') = ''A010''"
    using stringIncrement_eval [of "''A''" "''009''"] by (simp add: token_eval)
  show "stringIncrement (JString ''F001'') = ''F002''"
    using stringIncrement_eval [of "''F''" "''001''"] by (simp add: token_eval)
  show "parseInt10 ''010'' = Some 10"
    using parseInt10_digits [of "''010''"] by (simp add: token_eval)
  show "stringIncrement (JString ''A010'') = ''A011''"
    using stringIncrement_eval [of "''A''" "''010''"] by (simp add: token_eval)
qed

theorem padding_preserved_witness:
  "token_parts ''FX'' ''001'' \<and>
   length (nat_toString (decimal_value ''001'' + 1)) \<le> length ''001'' \<and>
   stringIncrement (JString ''FX001'') = ''FX002''"
proof -
  have h: "token_parts ''FX'' ''001'' \<and>
           length (nat_toString (decimal_value ''001'' + 1)) \<le> length ''001''"
    by (simp add: token_eval)
  have r: "nat_toString (decimal_value ''001'' + 1) = ''2''"
    by (simp add: token_eval)
  have "stringIncrement (JString (''FX'' @ ''001'')) =
        ''FX'' @ replicate (length ''001'' - length (nat_toString (decimal_value ''001'' + 1))) (CHR ''0'')
           @ nat_toString (decimal_value ''001'' + 1)"
    by (rule padding_preserved [of "''FX''" "''001''", THEN conjunct1, THEN mp, OF h, THEN conjunct1])
  then have "stringIncrement (JString ''FX001'') = ''FX002''"
    unfolding r by (simp add: eval_nat_numeral)
  with h show ?thesis by simp
qed

text \<open>
  Claim C2. For every valid input: when the decimal text of the value of \<open>ds\<close> plus one
  is longer than \<open>ds\<close> but at most four digits long, the result is \<open>ls\<close> followed by
  that text unpadded, which is one digit longer than \<open>ds\<close>. In particular \<open>A9\<close> gives
  \<open>A10\<close>, \<open>A99\<close> gives \<open>A100\<close> and \<open>A999\<close> gives \<open>A1000\<close>.
\<close>

theorem growth_on_carry:
  "(token_parts ls ds \<and> length ds < length (nat_toString (decimal_value ds + 1)) \<and>
      length (nat_toString (decimal_value ds + 1)) \<le> 4 \<longrightarrow>
      stringIncrement (JString (ls @ ds)) = ls @ nat_toString (decimal_value ds + 1) \<and>
      length (nat_toString (decimal_value ds + 1)) = length ds + 1) \<and>
   stringIncrement (JString ''A9'') = ''A10'' \<and>
   stringIncrement (JString ''A99'') = ''A100'' \<and>
   stringIncrement (JString ''A999'') = ''A1000''"
proof (intro conjI impI)
  assume h: "token_parts ls ds \<and> length ds < length (nat_toString (decimal_value ds + 1)) \<and>
      length (nat_toString (decimal_value ds + 1)) \<le> 4"
  then have tp: "token_parts ls ds" by (rule conjunct1)
  from token_partsD(1) [OF tp]
  have d: "ds \<noteq> []" "length ds \<le> 4" "list_all class_digit ds" by simp_all
  from h d show "stringIncrement (JString (ls @ ds)) = ls @ nat_toString (decimal_value ds + 1)"
    by (simp add: stringIncrement_token [OF tp] newDigitPart_digits)
  from h length_incremented_le_Suc [OF d(3)]
  show "length (nat_toString (decimal_value ds + 1)) = length ds + 1"
    by simp
next
  show "stringIncrement (JString ''A9'') = ''A10''"
    using stringIncrement_eval [of "''A''" "''9''"] by (simp add: token_eval)
  show "stringIncrement (JString ''A99'') = ''A100''"
    using stringIncrement_eval [of "''A''" "''99''"] by (simp add: token_eval)
  show "stringIncrement (JString ''A999'') = ''A1000''"
    using stringIncrement_eval [of "''A''" "''999''"] by (simp add: token_eval)
qed

theorem growth_on_carry_witness:
  "token_parts ''XY'' ''99'' \<and>
   length ''99'' < length (nat_toString (decimal_value ''99'' + 1)) \<and>
   length (nat_toString (decimal_value ''99'' + 1)) \<le> 4 \<and>
   stringIncrement (JString ''XY99'') = ''XY100''"
proof -
  have h: "token_parts ''XY'' ''99'' \<and>
           length ''99'' < length (nat_toString (decimal_value ''99'' + 1)) \<and>
           length (nat_toString (decimal_value ''99'' + 1)) \<le> 4"
    by (simp add: token_eval)
  have r: "nat_toString (decimal_value ''99'' + 1) = ''100''"
    by (simp add: token_eval)
  have "stringIncrement (JString (''XY'' @ ''99'')) = ''XY'' @ nat_toString (decimal_value ''99'' + 1)"
    by (rule growth_on_carry [of "''XY''" "''99''", THEN conjunct1, THEN mp, OF h, THEN conjunct1])
  then have "stringIncrement (JString ''XY99'') = ''XY100''"
    unfolding r by simp
  with h show ?thesis by simp
qed

text \<open>
  Claim C3. For every valid input: when the decimal text of the value of \<open>ds\<close> plus one
  is longer than four digits, the result is \<open>ls\<close> followed by as many zeros as \<open>ds\<close>
  has digits. In particular \<open>A9999\<close> gives \<open>A0000\<close> and \<open>ZZ9999\<close> gives \<open>ZZ0000\<close>.
\<close>

theorem overflow_reset:
  "(token_parts ls ds \<and> 4 < length (nat_toString (decimal_value ds + 1)) \<longrightarrow>
      stringIncrement (JString (ls @ ds)) = ls @ replicate (length ds) (CHR ''0'')) \<and>
   stringIncrement (JString ''A9999'') = ''A0000'' \<and>
   stringIncrement (JString ''ZZ9999'') = ''ZZ0000''"
proof (intro conjI impI)
  assume h: "token_parts ls ds \<and> 4 < length (nat_toString (decimal_value ds + 1))"
  then have tp: "token_parts ls ds" by (rule conjunct1)
  from token_partsD(1) [OF tp]
  have d: "ds \<noteq> []" "length ds \<le> 4" "list_all class_digit ds" by simp_all
  from h d show "stringIncrement (JString (ls @ ds)) = ls @ replicate (length ds) (CHR ''0'')"
    by (simp add: stringIncrement_token [OF tp] newDigitPart_digits)
next
  show "stringIncrement (JString ''A9999'') = ''A0000''"
    using stringIncrement_eval [of "''A''" "''9999''"] by (simp add: token_eval)
  show "stringIncrement (JString ''ZZ9999'') = ''ZZ0000''"
    using stringIncrement_eval [of "''ZZ''" "''9999''"] by (simp add: token_eval)
qed

theorem overflow_reset_witness:
  "token_parts ''ABCD'' ''9999'' \<and>
   4 < length (nat_toString (decimal_value ''9999'' + 1)) \<and>
   stringIncrement (JString ''ABCD9999'') = ''ABCD0000''"
proof -
  have h: "token_parts ''ABCD'' ''9999'' \<and>
           4 < length (nat_toString (decimal_value ''9999'' + 1))"
    by (simp add: token_eval)
  have "stringIncrement (JString (''ABCD'' @ ''9999'')) =
        ''ABCD'' @ replicate (length ''9999'') (CHR ''0'')"
    by (rule overflow_reset [of "''ABCD''" "''9999''", THEN conjunct1, THEN mp, OF h])
  then have "stringIncrement (JString ''ABCD9999'') = ''ABCD0000''"
    by (simp add: eval_nat_numeral)
  with h show ?thesis by simp
qed

section \<open>Claims about rejection\<close>

text \<open>
  Claim C4. Every input that is not a string made of one to four letters immediately
  followed by one to four digits yields the sentinel \<open>Error\<close>: the function is total, so
  it returns on every value and the failure is the returned value. In particular the
  empty string, \<open>ABC\<close>, \<open>123\<close>, \<open>ABCDE1\<close>, \<open>A12345\<close>, \<open>A1B2\<close>, \<open>A-1\<close>, \<open>A 1\<close>,
  \<open>null\<close>, \<open>undefined\<close>, every number, every boolean and an object yield \<open>Error\<close>.
\<close>

theorem invalid_input_sentinel:
  "(\<not> (\<exists>ls ds. input = JString (ls @ ds) \<and> token_parts ls ds) \<longrightarrow>
      stringIncrement input = ''Error'') \<and>
   stringIncrement (JString '''') = ''Error'' \<and>
   stringIncrement (JString ''ABC'') = ''Error'' \<and>
   stringIncrement (JString ''123'') = ''Error'' \<and>
   stringIncrement (JString ''ABCDE1'') = ''Error'' \<and>
   stringIncrement (JString ''A12345'') = ''Error'' \<and>
   stringIncrement (JString ''A1B2'') = ''Error'' \<and>
   stringIncrement (JString ''A-1'') = ''Error'' \<and>
   stringIncrement (JString ''A 1'') = ''Error'' \<and>
   stringIncrement JNull = ''Error'' \<and>
   stringIncrement JUndefined = ''Error'' \<and>
   stringIncrement (JNumber n) = ''Error'' \<and>
   stringIncrement (JBoolean b) = ''Error'' \<and>
   stringIncrement JObject = ''Error''"
proof (intro conjI impI)
  assume "\<not> (\<exists>ls ds. input = JString (ls @ ds) \<and> token_parts ls ds)"
  then show "stringIncrement input = ''Error''" by (rule stringIncrement_invalid)
next
  show "stringIncrement (JString '''') = ''Error''" by (simp add: stringIncrement_def)
  show "stringIncrement (JString ''ABC'') = ''Error''" by code_simp
  show "stringIncrement (JString ''123'') = ''Error''" by code_simp
  show "stringIncrement (JString ''ABCDE1'') = ''Error''" by code_simp
  show "stringIncrement (JString ''A12345'') = ''Error''" by code_simp
  show "stringIncrement (JString ''A1B2'') = ''Error''" by code_simp
  show "stringIncrement (JString ''A-1'') = ''Error''" by code_simp
  show "stringIncrement (JString ''A 1'') = ''Error''" by code_simp
  show "stringIncrement JNull = ''Error''" by (simp add: stringIncrement_def)
  show "stringIncrement JUndefined = ''Error''" by (simp add: stringIncrement_def)
  show "stringIncrement (JNumber n) = ''Error''" by (simp add: stringIncrement_def)
  show "stringIncrement (JBoolean b) = ''Error''" by (simp add: stringIncrement_def)
  show "stringIncrement JObject = ''Error''" by (simp add: stringIncrement_def)
qed

theorem invalid_input_sentinel_witness:
  "\<not> (\<exists>ls ds. JString '' A1'' = JString (ls @ ds) \<and> token_parts ls ds) \<and>
   stringIncrement (JString '' A1'') = ''Error''"
proof -
  have none: "match_groups validFormatRegex '' A1'' = None" by code_simp
  have h: "\<not> (\<exists>ls ds. JString '' A1'' = JString (ls @ ds) \<and> token_parts ls ds)"
  proof
    assume "\<exists>ls ds. JString '' A1'' = JString (ls @ ds) \<and> token_parts ls ds"
    then obtain ls ds where "'' A1'' = ls @ ds" and "token_parts ls ds" by auto
    then have "match_groups validFormatRegex '' A1'' = Some [ls, ds]"
      by (simp add: match_valid_token)
    with none show False by simp
  qed
  have "stringIncrement (JString '' A1'') = ''Error''"
    by (rule invalid_input_sentinel [of "JString '' A1''", THEN conjunct1, THEN mp, OF h])
  with h show ?thesis by (rule conjI)
qed

text \<open>
  Claim C7. On a valid input the result is never the sentinel: it ends in a decimal
  digit, and \<open>Error\<close> contains no digit. Hence the result equals \<open>Error\<close> exactly when
  the input is not a valid token.
\<close>

theorem sentinel_test_sound_complete:
  "(token_parts ls ds \<longrightarrow>
      stringIncrement (JString (ls @ ds)) \<noteq> ''Error'' \<and>
      class_digit (last (stringIncrement (JString (ls @ ds))))) \<and>
   list_all (\<lambda>c. \<not> class_digit c) ''Error'' \<and>
   (stringIncrement input = ''Error'' \<longleftrightarrow>
      \<not> (\<exists>ls ds. input = JString (ls @ ds) \<and> token_parts ls ds))"
proof (intro conjI impI)
  assume tp: "token_parts ls ds"
  show "stringIncrement (JString (ls @ ds)) \<noteq> ''Error''"
    using tp by (rule stringIncrement_valid_not_Error)
  show "class_digit (last (stringIncrement (JString (ls @ ds))))"
    using tp by (rule stringIncrement_valid_last)
next
  show "list_all (\<lambda>c. \<not> class_digit c) ''Error''"
    by (simp add: class_digit_def)
next
  show "stringIncrement input = ''Error'' \<longleftrightarrow>
      \<not> (\<exists>ls ds. input = JString (ls @ ds) \<and> token_parts ls ds)"
    using stringIncrement_invalid [of input] stringIncrement_valid_not_Error by blast
qed

theorem sentinel_test_sound_complete_witness:
  "token_parts ''ab'' ''07'' \<and>
   stringIncrement (JString ''ab07'') \<noteq> ''Error'' \<and>
   class_digit (last (stringIncrement (JString ''ab07''))) \<and>
   \<not> (\<exists>ls ds. JBoolean True = JString (ls @ ds) \<and> token_parts ls ds) \<and>
   stringIncrement (JBoolean True) = ''Error''"
proof -
  have h: "token_parts ''ab'' ''07''" by (simp add: token_eval)
  have "stringIncrement (JString (''ab'' @ ''07'')) \<noteq> ''Error'' \<and>
        class_digit (last (stringIncrement (JString (''ab'' @ ''07''))))"
    by (rule sentinel_test_sound_complete [of "''ab''" "''07''", THEN conjunct1, THEN mp, OF h])
  then have v: "stringIncrement (JString ''ab07'') \<noteq> ''Error'' \<and>
                class_digit (last (stringIncrement (JString ''ab07'')))"
    by simp
  have n: "\<not> (\<exists>ls ds. JBoolean True = JString (ls @ ds) \<and> token_parts ls ds)" by simp
  have "stringIncrement (JBoolean True) = ''Error''"
    using sentinel_test_sound_complete [where input = "JBoolean True",
        THEN conjunct2, THEN conjunct2] n
    by (rule iffD2)
  with h v n show ?thesis by simp
qed

section \<open>Claims about the shape of the result\<close>

text \<open>
  Claim C5. On a valid input the letter prefix of the result is the letter prefix of
  the input, character for character, in the case supplied. In particular \<open>fx001\<close>
  gives \<open>fx002\<close>, \<open>FxYz123\<close> gives \<open>FxYz124\<close>, and \<open>Zz100\<close> gives \<open>Zz101\<close>, not
  \<open>ZZ101\<close>.
\<close>

theorem case_preserved:
  "(token_parts ls ds \<longrightarrow>
      takeWhile class_alpha (ls @ ds) = ls \<and>
      takeWhile class_alpha (stringIncrement (JString (ls @ ds))) = ls \<and>
      take (length ls) (stringIncrement (JString (ls @ ds))) = ls) \<and>
   stringIncrement (JString ''fx001'') = ''fx002'' \<and>
   stringIncrement (JString ''FxYz123'') = ''FxYz124'' \<and>
   stringIncrement (JString ''Zz100'') = ''Zz101'' \<and>
   stringIncrement (JString ''Zz100'') \<noteq> ''ZZ101''"
proof (intro conjI impI)
  assume tp: "token_parts ls ds"
  from token_partsD(1) [OF tp]
  have d: "ds \<noteq> []" "length ds \<le> 4" "list_all class_digit ds" by simp_all
  from token_partsD(2) [OF tp] have l: "list_all class_alpha ls" by simp
  have nd: "newDigitPart ds \<noteq> []" "list_all class_digit (newDigitPart ds)"
    using newDigitPart_nonempty [OF d] newDigitPart_shape [OF d] by simp_all
  show "takeWhile class_alpha (ls @ ds) = ls"
    using l d(1) d(3) by (rule takeWhile_alpha_token)
  show "takeWhile class_alpha (stringIncrement (JString (ls @ ds))) = ls"
    unfolding stringIncrement_token [OF tp] using l nd by (rule takeWhile_alpha_token)
  show "take (length ls) (stringIncrement (JString (ls @ ds))) = ls"
    unfolding stringIncrement_token [OF tp] by simp
next
  show "stringIncrement (JString ''fx001'') = ''fx002''"
    using stringIncrement_eval [of "''fx''" "''001''"] by (simp add: token_eval)
  show "stringIncrement (JString ''FxYz123'') = ''FxYz124''"
    using stringIncrement_eval [of "''FxYz''" "''123''"] by (simp add: token_eval)
  show "stringIncrement (JString ''Zz100'') = ''Zz101''"
    using stringIncrement_eval [of "''Zz''" "''100''"] by (simp add: token_eval)
  show "stringIncrement (JString ''Zz100'') \<noteq> ''ZZ101''"
    using stringIncrement_eval [of "''Zz''" "''100''"] by (simp add: token_eval)
qed

theorem case_preserved_witness:
  "token_parts ''aBc'' ''199'' \<and>
   takeWhile class_alpha (stringIncrement (JString ''aBc199'')) = ''aBc''"
proof -
  have h: "token_parts ''aBc'' ''199''" by (simp add: token_eval)
  have "takeWhile class_alpha (stringIncrement (JString (''aBc'' @ ''199''))) = ''aBc''"
    using case_preserved [of "''aBc''" "''199''", THEN conjunct1, THEN mp, OF h]
    by (rule_tac conjunct1 [OF conjunct2])
  with h show ?thesis by simp
qed

text \<open>
  Claim C6. On a valid input the result is again a token of the same grammar, with the
  same letters: the pattern matches it, its digit part is as long as the input's or one
  digit longer, and never longer than four digits. The two boundary shapes are
  accepted: \<open>A1\<close> gives \<open>A2\<close> and \<open>ABCD1234\<close> gives \<open>ABCD1235\<close>.
\<close>

theorem closed_over_tokens:
  "(token_parts ls ds \<longrightarrow>
      stringIncrement (JString (ls @ ds)) = ls @ newDigitPart ds \<and>
      token_parts ls (newDigitPart ds) \<and>
      string_match (stringIncrement (JString (ls @ ds))) validFormatRegex =
        Some [stringIncrement (JString (ls @ ds)), ls, newDigitPart ds] \<and>
      (length (newDigitPart ds) = length ds \<or> length (newDigitPart ds) = length ds + 1) \<and>
      length (newDigitPart ds) \<le> 4) \<and>
   stringIncrement (JString ''A1'') = ''A2'' \<and>
   stringIncrement (JString ''ABCD1234'') = ''ABCD1235''"
proof (intro conjI impI)
  assume tp: "token_parts ls ds"
  from token_partsD(1) [OF tp]
  have d: "ds \<noteq> []" "length ds \<le> 4" "list_all class_digit ds" by simp_all
  note shape = newDigitPart_shape [OF d]
  have ne: "newDigitPart ds \<noteq> []" by (rule newDigitPart_nonempty [OF d])
  show out: "stringIncrement (JString (ls @ ds)) = ls @ newDigitPart ds"
    by (rule stringIncrement_token [OF tp])
  show tp': "token_parts ls (newDigitPart ds)"
    using tp shape ne by (cases "newDigitPart ds") (auto simp: token_parts_def)
  show "string_match (stringIncrement (JString (ls @ ds))) validFormatRegex =
        Some [stringIncrement (JString (ls @ ds)), ls, newDigitPart ds]"
    unfolding out using tp' by (simp add: string_match_iff)
  show "length (newDigitPart ds) = length ds \<or> length (newDigitPart ds) = length ds + 1"
    using shape by simp
  show "length (newDigitPart ds) \<le> 4"
    using shape by simp
next
  show "stringIncrement (JString ''A1'') = ''A2''"
    using stringIncrement_eval [of "''A''" "''1''"] by (simp add: token_eval)
  show "stringIncrement (JString ''ABCD1234'') = ''ABCD1235''"
    using stringIncrement_eval [of "''ABCD''" "''1234''"] by (simp add: token_eval)
qed

theorem closed_over_tokens_witness:
  "token_parts ''Q'' ''099'' \<and>
   stringIncrement (JString ''Q099'') = ''Q100'' \<and>
   token_parts ''Q'' ''100'' \<and>
   string_match ''Q100'' validFormatRegex = Some [''Q100'', ''Q'', ''100'']"
proof -
  have h: "token_parts ''Q'' ''099''" by (simp add: token_eval)
  have nd: "newDigitPart ''099'' = ''100''"
    using newDigitPart_digits [of "''099''"] by (simp add: token_eval)
  note c = closed_over_tokens [of "''Q''" "''099''", THEN conjunct1, THEN mp, OF h]
  from c have "stringIncrement (JString (''Q'' @ ''099'')) = ''Q'' @ newDigitPart ''099''"
    by (rule conjunct1)
  then have o: "stringIncrement (JString ''Q099'') = ''Q100''"
    unfolding nd by simp
  have "token_parts ''Q'' (newDigitPart ''099'')"
    by (rule c [THEN conjunct2, THEN conjunct1])
  then have t: "token_parts ''Q'' ''100''"
    unfolding nd .
  have "string_match (stringIncrement (JString (''Q'' @ ''099''))) validFormatRegex =
        Some [stringIncrement (JString (''Q'' @ ''099'')), ''Q'', newDigitPart ''099'']"
    by (rule c [THEN conjunct2, THEN conjunct2, THEN conjunct1])
  then have m: "string_match ''Q100'' validFormatRegex = Some [''Q100'', ''Q'', ''100'']"
    using o unfolding nd by simp
  from h o t m show ?thesis by simp
qed

section \<open>Claims about unreachable provisions\<close>

text \<open>
  Claim C9. On a valid input the overflow branch (the decimal text of the incremented
  number is longer than four digits) is taken exactly when the digit part is \<open>9999\<close>.
  The zeros written there are therefore always \<open>0000\<close>, and a digit part shorter than
  four digits never reaches the branch.
\<close>

theorem overflow_only_at_9999:
  "token_parts ls ds \<longrightarrow>
     (4 < length (incrementedStr ds) \<longleftrightarrow> ds = ''9999'') \<and>
     (4 < length (incrementedStr ds) \<longrightarrow>
        stringIncrement (JString (ls @ ds)) = ls @ ''0000'') \<and>
     (length ds < 4 \<longrightarrow> \<not> 4 < length (incrementedStr ds))"
proof (intro impI)
  assume tp: "token_parts ls ds"
  from token_partsD(1) [OF tp]
  have d: "ds \<noteq> []" "length ds \<le> 4" "list_all class_digit ds" by simp_all
  note iff = overflow_iff [OF d]
  have zeros: "stringIncrement (JString (ls @ ds)) = ls @ ''0000''"
    if ov: "4 < length (incrementedStr ds)"
  proof -
    from ov iff have ds: "ds = ''9999''" by simp
    have "newDigitPart ds = replicate (length ds) (CHR ''0'')"
      using ov by (simp add: newDigitPart_def)
    also have "\<dots> = ''0000''" unfolding ds by (simp add: eval_nat_numeral)
    finally show ?thesis by (simp add: stringIncrement_token [OF tp])
  qed
  have short: "\<not> 4 < length (incrementedStr ds)" if "length ds < 4"
  proof
    assume "4 < length (incrementedStr ds)"
    with iff have "ds = ''9999''" by simp
    with that show False by simp
  qed
  from iff zeros short
  show "(4 < length (incrementedStr ds) \<longleftrightarrow> ds = ''9999'') \<and>
     (4 < length (incrementedStr ds) \<longrightarrow>
        stringIncrement (JString (ls @ ds)) = ls @ ''0000'') \<and>
     (length ds < 4 \<longrightarrow> \<not> 4 < length (incrementedStr ds))"
    by blast
qed

theorem overflow_only_at_9999_witness:
  "token_parts ''wx'' ''9999'' \<and>
   4 < length (incrementedStr ''9999'') \<and>
   stringIncrement (JString ''wx9999'') = ''wx0000'' \<and>
   token_parts ''wx'' ''999'' \<and> length ''999'' < (4::nat) \<and>
   \<not> 4 < length (incrementedStr ''999'')"
proof -
  have h: "token_parts ''wx'' ''9999''" by (simp add: token_eval)
  note c = overflow_only_at_9999 [of "''wx''" "''9999''", THEN mp, OF h]
  have ov: "4 < length (incrementedStr ''9999'')"
    using c [THEN conjunct1] by simp
  have "stringIncrement (JString (''wx'' @ ''9999'')) = ''wx'' @ ''0000''"
    by (rule c [THEN conjunct2, THEN conjunct1, THEN mp, OF ov])
  then have o: "stringIncrement (JString ''wx9999'') = ''wx0000''" by simp
  have h': "token_parts ''wx'' ''999''" by (simp add: token_eval)
  have l: "length ''999'' < (4::nat)" by simp
  have s: "\<not> 4 < length (incrementedStr ''999'')"
    by (rule overflow_only_at_9999 [of "''wx''" "''999''", THEN mp, OF h',
          THEN conjunct2, THEN conjunct2, THEN mp, OF l])
  from h ov o h' l s show ?thesis by simp
qed

text \<open>
  Claim C10. Whenever the pattern matches a string, the match array has exactly three
  entries (the matched text and the two captures), so the guard on fewer than three
  entries never fires: on a string the sentinel is returned exactly when the pattern
  does not match.
\<close>

theorem match_array_has_three_entries:
  "(string_match s validFormatRegex = Some m \<longrightarrow> length m = 3) \<and>
   (stringIncrement (JString s) = ''Error'' \<longleftrightarrow> string_match s validFormatRegex = None)"
proof (intro conjI impI)
  assume "string_match s validFormatRegex = Some m"
  then show "length m = 3" by (auto simp: string_match_iff)
next
  show "stringIncrement (JString s) = ''Error'' \<longleftrightarrow> string_match s validFormatRegex = None"
  proof
    assume e: "stringIncrement (JString s) = ''Error''"
    show "string_match s validFormatRegex = None"
    proof (rule ccontr)
      assume "string_match s validFormatRegex \<noteq> None"
      then obtain m where "string_match s validFormatRegex = Some m" by blast
      then obtain ls ds where "s = ls @ ds" "token_parts ls ds"
        by (auto simp: string_match_iff)
      with e stringIncrement_valid_not_Error show False by blast
    qed
  next
    assume "string_match s validFormatRegex = None"
    then show "stringIncrement (JString s) = ''Error''"
      by (rule stringIncrement_no_match)
  qed
qed

theorem match_array_has_three_entries_witness:
  "string_match ''Ab12'' validFormatRegex = Some [''Ab12'', ''Ab'', ''12''] \<and>
   length [''Ab12'', ''Ab'', ''12''] = 3 \<and>
   string_match ''Ab 12'' validFormatRegex = None \<and>
   stringIncrement (JString ''Ab 12'') = ''Error''"
proof -
  have h: "string_match ''Ab12'' validFormatRegex = Some [''Ab12'', ''Ab'', ''12'']"
    by code_simp
  have l: "length [''Ab12'', ''Ab'', ''12''] = 3"
    by (rule match_array_has_three_entries [of "''Ab12''" "[''Ab12'', ''Ab'', ''12'']",
          THEN conjunct1, THEN mp, OF h])
  have n: "string_match ''Ab 12'' validFormatRegex = None" by code_simp
  have e: "stringIncrement (JString ''Ab 12'') = ''Error''"
    using match_array_has_three_entries [of "''Ab 12''", THEN conjunct2] n
    by (rule iffD2)
  from h l n e show ?thesis by simp
qed

end
